theory Spec2Isabelle
  imports Complex_Main "HOL-Library.Char_ord" "HOL-Library.List_Lexorder"
begin

section \<open>Common types\<close>

text \<open>
  A \<^verbatim>\<open>datetime\<close> is kept as a number of seconds; the program only stores and copies
  the values modelled here. Exceptions are values of \<open>error\<close>, one constructor per
  exception class the modelled code can raise; \<open>OtherError\<close> stands for an exception of
  the network and mail libraries. \<open>InvalidTransition\<close> is the error that the
  specification names for a rejected transition of a case; it is listed so that
  statements can speak of it, and no statement of the code raises it.
\<close>

type_synonym datetime = int

datatype error =
  ValidationError | KeyError | NameError | JSONDecodeError | OtherError | InvalidTransition

section \<open>Timesheet records and anomaly detection\<close>

text \<open>
  \<^verbatim>\<open>src/models/timesheet.py\<close>. \<^verbatim>\<open>hours_worked\<close> is a float that pydantic
  restricts to \<open>0 \<le> h \<le> 24\<close> (\<^verbatim>\<open>Field(..., ge=0, le=24)\<close>), which also excludes NaN.
  The code only compares it with the integer constants 4, 8 and 12; these comparisons are
  exact on floats, so the field is modelled as a real number.
\<close>

record TimesheetEntry =
  ts_employee_id :: string
  ts_employee_name :: string
  ts_employee_email :: string
  ts_date :: datetime
  hours_worked :: real
  project :: "string option"
  ts_status :: string
  ts_notes :: "string option"

record TimesheetAnomaly =
  an_employee_id :: string
  an_employee_name :: string
  an_employee_email :: string
  an_date :: datetime
  expected_hours :: real
  actual_hours :: real
  anomaly_type :: string
  description :: string
  severity :: string

text \<open>
  \<^verbatim>\<open>analyze_timesheets\<close> (\<^verbatim>\<open>src/agents/tools.py\<close>, lines 64-91): the body of the loop
  over one employee's entries. The thresholds 8, 4 and 12 are literals of the source.
  The description is an f-string that prints the float; the printing of a float is the
  parameter \<open>show_hours\<close>.
\<close>

definition check_entry :: "(real \<Rightarrow> string) \<Rightarrow> TimesheetEntry \<Rightarrow> TimesheetAnomaly option" where
  "check_entry show_hours ts =
     (if hours_worked ts < 8 then
        Some \<lparr> an_employee_id = ts_employee_id ts,
               an_employee_name = ts_employee_name ts,
               an_employee_email = ts_employee_email ts,
               an_date = ts_date ts,
               expected_hours = 8,
               actual_hours = hours_worked ts,
               anomaly_type = ''missing_hours'',
               description = ''Only '' @ show_hours (hours_worked ts)
                  @ '' hours logged, expected at least 8 hours'',
               severity = (if hours_worked ts < 4 then ''high'' else ''medium'') \<rparr>
      else if hours_worked ts > 12 then
        Some \<lparr> an_employee_id = ts_employee_id ts,
               an_employee_name = ts_employee_name ts,
               an_employee_email = ts_employee_email ts,
               an_date = ts_date ts,
               expected_hours = 8,
               actual_hours = hours_worked ts,
               anomaly_type = ''excessive_hours'',
               description = show_hours (hours_worked ts)
                  @ '' hours logged, which exceeds normal working hours'',
               severity = ''medium'' \<rparr>
      else None)"

text \<open>The inner loop: anomalies are appended in the order of the entries.\<close>

fun entry_anomalies :: "(real \<Rightarrow> string) \<Rightarrow> TimesheetEntry list \<Rightarrow> TimesheetAnomaly list" where
  "entry_anomalies show_hours [] = []"
| "entry_anomalies show_hours (ts # tss) =
     (case check_entry show_hours ts of
        Some a \<Rightarrow> a # entry_anomalies show_hours tss
      | None \<Rightarrow> entry_anomalies show_hours tss)"

text \<open>
  Lines 52-56: the entries are grouped by \<^verbatim>\<open>employee_email\<close> in a dict. A Python dict
  keeps its keys in insertion order, so the dict is an association list: a new key goes
  to the end, an existing key keeps its place.
\<close>

fun group_append :: "string \<Rightarrow> 'a \<Rightarrow> (string \<times> 'a list) list \<Rightarrow> (string \<times> 'a list) list" where
  "group_append k v [] = [(k, [v])]"
| "group_append k v ((k', vs) # g) =
     (if k = k' then (k', vs @ [v]) # g else (k', vs) # group_append k v g)"

definition group_by_employee :: "TimesheetEntry list \<Rightarrow> (string \<times> TimesheetEntry list) list" where
  "group_by_employee tss = foldl (\<lambda>g ts. group_append (ts_employee_email ts) ts g) [] tss"

text \<open>
  Lines 58-94: \<^verbatim>\<open>anomalies_by_employee\<close>, holding the employees with at least one
  anomaly. The function then prints this dict into its result text.
\<close>

definition anomalies_by_employee ::
  "(real \<Rightarrow> string) \<Rightarrow> TimesheetEntry list \<Rightarrow> (string \<times> TimesheetAnomaly list) list" where
  "anomalies_by_employee show_hours tss =
     filter (\<lambda>(email, anomalies). anomalies \<noteq> [])
       (map (\<lambda>(email, emp_timesheets). (email, entry_anomalies show_hours emp_timesheets))
          (group_by_employee tss))"

text \<open>
  \<^verbatim>\<open>CSVTimesheetRepository.get_employee_summary\<close> (\<^verbatim>\<open>src/repositories/csv_repository.py\<close>,
  lines 173-186): the second place that builds \<^verbatim>\<open>missing_hours\<close> anomalies. The
  threshold is \<^verbatim>\<open>settings.app.anomaly_threshold_hours\<close>, an int read from the
  environment (default 8); the severity test compares with the literal 4. The f-string
  prints the threshold as an int (\<open>show_int\<close>).
\<close>

definition summary_anomaly ::
  "int \<Rightarrow> (real \<Rightarrow> string) \<Rightarrow> (int \<Rightarrow> string) \<Rightarrow> TimesheetEntry
     \<Rightarrow> TimesheetAnomaly option" where
  "summary_anomaly anomaly_threshold_hours show_hours show_int ts =
     (if hours_worked ts < real_of_int anomaly_threshold_hours then
        Some \<lparr> an_employee_id = ts_employee_id ts,
               an_employee_name = ts_employee_name ts,
               an_employee_email = ts_employee_email ts,
               an_date = ts_date ts,
               expected_hours = real_of_int anomaly_threshold_hours,
               actual_hours = hours_worked ts,
               anomaly_type = ''missing_hours'',
               description = ''Only '' @ show_hours (hours_worked ts)
                  @ '' hours logged, expected at least ''
                  @ show_int anomaly_threshold_hours,
               severity = (if hours_worked ts > 4 then ''medium'' else ''high'') \<rparr>
      else None)"

fun summary_anomalies ::
  "int \<Rightarrow> (real \<Rightarrow> string) \<Rightarrow> (int \<Rightarrow> string) \<Rightarrow> TimesheetEntry list
     \<Rightarrow> TimesheetAnomaly list" where
  "summary_anomalies thr show_hours show_int [] = []"
| "summary_anomalies thr show_hours show_int (ts # tss) =
     (case summary_anomaly thr show_hours show_int ts of
        Some a \<Rightarrow> a # summary_anomalies thr show_hours show_int tss
      | None \<Rightarrow> summary_anomalies thr show_hours show_int tss)"

section \<open>Strings\<close>

text \<open>
  A Python \<^verbatim>\<open>str\<close> is a list of code points; the model keeps the code points below
  256, one \<open>char\<close> each. \<open>py_isspace\<close> is \<^verbatim>\<open>str.isspace\<close> on one such code point (the
  characters that \<^verbatim>\<open>str.strip()\<close> removes), \<open>py_lower\<close> is \<^verbatim>\<open>str.lower()\<close> and
  \<open>contains sub s\<close> is \<^verbatim>\<open>sub in s\<close>.
\<close>

definition py_isspace :: "char \<Rightarrow> bool" where
  "py_isspace c =
     (let n = (of_char c :: nat)
      in (9 \<le> n \<and> n \<le> 13) \<or> (28 \<le> n \<and> n \<le> 32) \<or> n = 133 \<or> n = 160)"

definition py_strip :: "string \<Rightarrow> string" where
  "py_strip s = rev (dropWhile py_isspace (rev (dropWhile py_isspace s)))"

definition py_lower_char :: "char \<Rightarrow> char" where
  "py_lower_char c =
     (let n = (of_char c :: nat)
      in if (65 \<le> n \<and> n \<le> 90) \<or> (192 \<le> n \<and> n \<le> 222 \<and> n \<noteq> 215)
         then char_of (n + 32) else c)"

definition py_lower :: "string \<Rightarrow> string" where
  "py_lower s = map py_lower_char s"

fun contains :: "string \<Rightarrow> string \<Rightarrow> bool" where
  "contains sub [] = (sub = [])"
| "contains sub (c # cs) = (take (length sub) (c # cs) = sub \<or> contains sub cs)"

section \<open>The reason classifier\<close>

text \<open>
  \<^verbatim>\<open>_analyze_reason_with_llm\<close> (\<^verbatim>\<open>src/agents/employee_engagement_agent.py\<close>, lines 226-297,
  and the same text in \<^verbatim>\<open>src/agents/background_monitor_agent.py\<close>, lines 171-242, which
  logs with \<^verbatim>\<open>log_entry\<close> where the former prints). The function returns a dict; a dict
  parsed from the model's JSON may lack any key, so every field is optional. The JSON
  values are read at the types the prompt asks for.
\<close>

record analysis =
  is_valid :: "bool option"
  reason_type :: "string option"
  confidence :: "int option"
  explanation :: "string option"
  requires_approval :: "bool option"
  suggested_keywords :: "string list option"

text \<open>
  What the \<^verbatim>\<open>try\<close> block meets when it builds the agent and awaits \<^verbatim>\<open>runner.run\<close>:
  an exception (network failure, timeout, missing credentials), or a result whose
  \<^verbatim>\<open>final_output\<close> is a text or \<^verbatim>\<open>None\<close>.
\<close>

datatype llm_outcome = LLMRaises | LLMOutput "string option"

text \<open>
  \<^verbatim>\<open>re.search(r'\{.*\}', response_text, re.DOTALL)\<close>: with DOTALL the dot matches every
  character, so the leftmost match starts at the first opening brace and the greedy star
  runs to the last closing brace behind it.
\<close>

definition json_match :: "string \<Rightarrow> string option" where
  "json_match response_text =
     (case dropWhile (\<lambda>c. c \<noteq> CHR ''{'') response_text of
        [] \<Rightarrow> None
      | b # rest \<Rightarrow>
          if CHR ''}'' \<in> set rest
          then Some (rev (dropWhile (\<lambda>c. c \<noteq> CHR ''}'') (rev (b # rest))))
          else None)"

text \<open>Lines 290-297: the dict returned by the \<^verbatim>\<open>except Exception\<close> handler.\<close>

definition fallback_on_exception :: "string \<Rightarrow> analysis" where
  "fallback_on_exception content =
     \<lparr> is_valid = Some (length (py_strip content) > 10),
       reason_type = Some ''other'',
       confidence = Some 30,
       explanation = Some ''Analysis failed, using fallback'',
       requires_approval = Some True,
       suggested_keywords = Some [] \<rparr>"

text \<open>Lines 276-285: the dict returned when the response holds no JSON object.\<close>

definition fallback_no_json :: "string \<Rightarrow> analysis" where
  "fallback_no_json content =
     \<lparr> is_valid = Some (length (py_strip content) > 10
                        \<and> \<not> contains ''forgot'' (py_lower content)),
       reason_type = Some ''other'',
       confidence = Some 50,
       explanation = Some ''Fallback analysis'',
       requires_approval = Some True,
       suggested_keywords = Some [] \<rparr>"

text \<open>
  \<^verbatim>\<open>json.loads\<close> is the parameter \<open>json_loads\<close>; \<open>None\<close> is its \<^verbatim>\<open>JSONDecodeError\<close>,
  which is raised inside the \<^verbatim>\<open>try\<close> block and so reaches the same handler as a failed
  call. \<^verbatim>\<open>result.final_output or ""\<close> turns \<^verbatim>\<open>None\<close> into the empty text.
\<close>

definition analyze_reason_with_llm ::
  "(string \<Rightarrow> analysis option) \<Rightarrow> llm_outcome \<Rightarrow> string \<Rightarrow> analysis" where
  "analyze_reason_with_llm json_loads outcome content =
     (case outcome of
        LLMRaises \<Rightarrow> fallback_on_exception content
      | LLMOutput final_output \<Rightarrow>
          (let response_text = (case final_output of None \<Rightarrow> [] | Some t \<Rightarrow> t)
           in case json_match response_text of
                Some js \<Rightarrow>
                  (case json_loads js of
                     Some a \<Rightarrow> a
                   | None \<Rightarrow> fallback_on_exception content)
              | None \<Rightarrow> fallback_no_json content))"

section \<open>The policy repository\<close>






section \<open>Inbound messages\<close>

text \<open>The dataclass \<^verbatim>\<open>EmailMessage\<close> (\<^verbatim>\<open>src/services/email_monitor_service.py\<close>, lines 18-29).\<close>

record EmailMessage =
  message_id :: string
  from_email :: string
  from_name :: string
  subject :: string
  content :: string
  received_date :: datetime
  is_reply :: bool
  original_subject :: "string option"
  timesheet_date :: "string option"

section \<open>The engagement agent and its case table\<close>
















section \<open>The mailbox poller\<close>

text \<open>
  \<^verbatim>\<open>EmailMonitorService\<close> (\<^verbatim>\<open>src/services/email_monitor_service.py\<close>). The attribute
  \<^verbatim>\<open>reply_callback\<close> is set once, when the owning agent is built, and the poller never
  assigns it; it is an argument of the functions below (\<open>None\<close> when no callback is
  set). A callback works on the state \<open>'h\<close> of the agent that registered it and either
  returns or raises.
\<close>

record EmailMonitorService =
  last_check_time :: "datetime option"
  processed_messages :: "string set"
  monitoring_active :: bool
  check_interval :: int
  check_count :: int

type_synonym 'h callback = "EmailMessage \<Rightarrow> 'h \<Rightarrow> (error + unit) \<times> 'h"

definition EmailMonitorService_init :: EmailMonitorService where
  "EmailMonitorService_init =
     \<lparr> last_check_time = None, processed_messages = {}, monitoring_active = False,
       check_interval = 60, check_count = 0 \<rparr>"

subsection \<open>The date in the subject\<close>

text \<open>
  \<^verbatim>\<open>_extract_timesheet_date\<close> (lines 182-196): three patterns of digits and separators,
  searched in this order; \<^verbatim>\<open>re.search\<close> returns the leftmost match.
\<close>

datatype pat = Digit | Lit char

definition is_digit :: "char \<Rightarrow> bool" where
  "is_digit c = (let n = (of_char c :: nat) in 48 \<le> n \<and> n \<le> 57)"

fun matches_at :: "pat list \<Rightarrow> string \<Rightarrow> bool" where
  "matches_at [] s = True"
| "matches_at (p # ps) [] = False"
| "matches_at (Digit # ps) (c # cs) = (is_digit c \<and> matches_at ps cs)"
| "matches_at (Lit x # ps) (c # cs) = (c = x \<and> matches_at ps cs)"

fun re_search :: "pat list \<Rightarrow> string \<Rightarrow> string option" where
  "re_search p [] = (if matches_at p [] then Some [] else None)"
| "re_search p (c # cs) =
     (if matches_at p (c # cs) then Some (take (length p) (c # cs)) else re_search p cs)"

definition extract_timesheet_date :: "string \<Rightarrow> string option" where
  "extract_timesheet_date subj =
     (case re_search [Digit, Digit, Digit, Digit, Lit CHR ''-'', Digit, Digit, Lit CHR ''-'',
                      Digit, Digit] subj of
        Some m \<Rightarrow> Some m
      | None \<Rightarrow>
     (case re_search [Digit, Digit, Lit CHR ''/'', Digit, Digit, Lit CHR ''/'',
                      Digit, Digit, Digit, Digit] subj of
        Some m \<Rightarrow> Some m
      | None \<Rightarrow>
        re_search [Digit, Digit, Lit CHR ''-'', Digit, Digit, Lit CHR ''-'',
                   Digit, Digit, Digit, Digit] subj))"

subsection \<open>One check of the mailbox\<close>

text \<open>
  What one call of \<^verbatim>\<open>check_for_replies\<close> meets outside the program: the result of
  \<^verbatim>\<open>_connect_imap\<close> (the unread messages, or an exception), the result of
  \<^verbatim>\<open>_fallback_simulation\<close> (read only when the connection failed; it depends on the
  clock and on a random draw), and the clock at line 113.
\<close>

record check_env =
  imap_result :: "error + EmailMessage list"
  fallback_result :: "error + EmailMessage list"
  clock :: datetime

text \<open>\<^verbatim>\<open>_simulate_email_check\<close> (lines 128-137).\<close>

definition simulate_email_check :: "'e check_env_scheme \<Rightarrow> error + EmailMessage list" where
  "simulate_email_check env =
     (case imap_result env of
        Inr replies \<Rightarrow> Inr replies
      | Inl e \<Rightarrow> fallback_result env)"

text \<open>
  Lines 97-102: the first loop of \<^verbatim>\<open>check_for_replies\<close>. A message whose identifier
  is not in the set is appended to \<^verbatim>\<open>new_replies\<close> and its identifier is added at once,
  so a second message of the same batch with that identifier is skipped.
\<close>

fun filter_new :: "EmailMessage list \<Rightarrow> string set \<Rightarrow> EmailMessage list \<times> string set" where
  "filter_new [] seen = ([], seen)"
| "filter_new (reply # rest) seen =
     (if message_id reply \<notin> seen
      then (let (new_replies, seen') = filter_new rest (insert (message_id reply) seen)
            in (reply # new_replies, seen'))
      else filter_new rest seen)"

text \<open>
  \<^verbatim>\<open>_process_reply\<close> (lines 167-180): the date is taken from the subject when the
  message has none (\<^verbatim>\<open>None\<close> or the empty text), then the callback is awaited inside
  \<^verbatim>\<open>try\<close>; an exception of the callback is printed and dropped. The message object is
  updated in place, so the caller's list holds the updated message.
\<close>

definition with_date :: "EmailMessage \<Rightarrow> EmailMessage" where
  "with_date reply =
     (if timesheet_date reply = None \<or> timesheet_date reply = Some []
      then reply\<lparr> timesheet_date := extract_timesheet_date (subject reply) \<rparr>
      else reply)"

definition process_reply ::
  "'h callback option \<Rightarrow> EmailMessage \<Rightarrow> 'h \<Rightarrow> EmailMessage \<times> 'h" where
  "process_reply reply_callback reply h =
     (let reply' = with_date reply
      in case reply_callback of
           None \<Rightarrow> (reply', h)
         | Some cb \<Rightarrow>
             (case cb reply' h of
                (Inl e, h') \<Rightarrow> (reply', h')
              | (Inr u, h') \<Rightarrow> (reply', h')))"

text \<open>Lines 108-109: the second loop, over the new replies in their order.\<close>

fun process_replies ::
  "'h callback option \<Rightarrow> EmailMessage list \<Rightarrow> 'h \<Rightarrow> EmailMessage list \<times> 'h" where
  "process_replies reply_callback [] h = ([], h)"
| "process_replies reply_callback (reply # rest) h =
     (let (reply', h') = process_reply reply_callback reply h;
          (rest', h'') = process_replies reply_callback rest h'
      in (reply' # rest', h''))"

text \<open>
  \<^verbatim>\<open>list(self.processed_messages)\<close> lists a Python set in its iteration order. The
  language does not fix that order: it follows the hash values of the elements (for
  \<^verbatim>\<open>str\<close>, salted anew in every process) and the history of the table, not the order of
  insertion. The listing is the parameter \<open>list_of\<close>; \<open>enumerates list_of\<close> says that it
  lists every element of a finite set once.
\<close>

definition enumerates :: "(string set \<Rightarrow> string list) \<Rightarrow> bool" where
  "enumerates list_of = (\<forall>S. finite S \<longrightarrow> set (list_of S) = S \<and> distinct (list_of S))"

text \<open>The slice \<^verbatim>\<open>xs[-n:]\<close>: the last \<open>n\<close> elements, or the whole list when it is shorter.\<close>

definition last_n :: "nat \<Rightarrow> 'a list \<Rightarrow> 'a list" where
  "last_n n xs = drop (length xs - n) xs"

text \<open>Lines 116-120: the clean-up at the end of a check.\<close>

definition cleanup :: "(string set \<Rightarrow> string list) \<Rightarrow> EmailMonitorService \<Rightarrow> EmailMonitorService" where
  "cleanup list_of st =
     (if check_count st mod 10 = 0 \<and> card (processed_messages st) > 100
      then st\<lparr> processed_messages := set (last_n 50 (list_of (processed_messages st))) \<rparr>
      else st)"

text \<open>
  \<^verbatim>\<open>check_for_replies\<close> (lines 90-126). Only the fetch can raise inside the \<^verbatim>\<open>try\<close>
  block, and it is its first statement: the handler then returns the empty list with
  the poller untouched.
\<close>

definition check_for_replies ::
  "(string set \<Rightarrow> string list) \<Rightarrow> 'h callback option \<Rightarrow> 'e check_env_scheme
     \<Rightarrow> EmailMonitorService \<Rightarrow> 'h \<Rightarrow> EmailMessage list \<times> EmailMonitorService \<times> 'h" where
  "check_for_replies list_of reply_callback env st h =
     (case simulate_email_check env of
        Inl e \<Rightarrow> ([], st, h)
      | Inr all_replies \<Rightarrow>
          (let (new_replies, seen) = filter_new all_replies (processed_messages st);
               (new_replies', h') = process_replies reply_callback new_replies h;
               st' = st\<lparr> processed_messages := seen,
                         last_check_time := Some (clock env),
                         check_count := check_count st + 1 \<rparr>
           in (new_replies', cleanup list_of st', h')))"

text \<open>
  Several checks in a row, as the loop makes them: the lists of new replies that the
  checks returned, in order, and the state after the last one. The new replies of a
  check are the messages it passed to \<^verbatim>\<open>_process_reply\<close>, one call each.
\<close>

fun run_checks ::
  "(string set \<Rightarrow> string list) \<Rightarrow> 'h callback option \<Rightarrow> 'e check_env_scheme list
     \<Rightarrow> EmailMonitorService \<Rightarrow> 'h \<Rightarrow> EmailMessage list list \<times> EmailMonitorService \<times> 'h" where
  "run_checks list_of reply_callback [] st h = ([], st, h)"
| "run_checks list_of reply_callback (env # envs) st h =
     (case check_for_replies list_of reply_callback env st h of
        (new_replies, st', h') \<Rightarrow>
          (case run_checks list_of reply_callback envs st' h' of
             (later, st'', h'') \<Rightarrow> (new_replies # later, st'', h'')))"

text \<open>The identifiers that the fetch of a check delivers.\<close>

definition fetched_ids :: "'e check_env_scheme \<Rightarrow> string set" where
  "fetched_ids env =
     (case simulate_email_check env of
        Inl e \<Rightarrow> {}
      | Inr replies \<Rightarrow> message_id ` set replies)"

text \<open>
  Whether the clean-up fires at the end of a check: the fetch succeeded, the new check
  count is a multiple of 10 and the set, with the identifiers just added, holds more than
  100.
\<close>

definition cleanup_due :: "'e check_env_scheme \<Rightarrow> EmailMonitorService \<Rightarrow> bool" where
  "cleanup_due env st =
     (case simulate_email_check env of
        Inl e \<Rightarrow> False
      | Inr replies \<Rightarrow>
          (check_count st + 1) mod 10 = 0
          \<and> card (processed_messages st \<union> message_id ` set replies) > 100)"

text \<open>
  An identifier stays seen through a run of checks: no check of the run ends with the
  identifier outside the seen-set although it was in the set, or was fetched, in that
  check.
\<close>

fun stays_seen ::
  "string \<Rightarrow> (string set \<Rightarrow> string list) \<Rightarrow> 'h callback option \<Rightarrow> 'e check_env_scheme list
     \<Rightarrow> EmailMonitorService \<Rightarrow> 'h \<Rightarrow> bool" where
  "stays_seen x list_of reply_callback [] st h = True"
| "stays_seen x list_of reply_callback (env # envs) st h =
     (case check_for_replies list_of reply_callback env st h of
        (new_replies, st', h') \<Rightarrow>
          (x \<in> processed_messages st \<union> fetched_ids env \<longrightarrow> x \<in> processed_messages st')
          \<and> stays_seen x list_of reply_callback envs st' h')"

subsection \<open>The polling loop\<close>

text \<open>
  One turn of the loop of \<^verbatim>\<open>start_monitoring\<close> (lines 60-78) awaits
  \<^verbatim>\<open>check_for_replies\<close>, prints the new replies and sleeps. What the turn meets outside
  the program, besides the mailbox:
  \<^item> \<open>stop_requested\<close>: while the turn was suspended in an \<^verbatim>\<open>await\<close>, another task
    called \<^verbatim>\<open>stop_monitoring\<close>; the flag is read again only at the next test of the
    \<^verbatim>\<open>while\<close>;
  \<^item> \<open>sleep_error\<close>: the exception, if any, of \<^verbatim>\<open>asyncio.sleep\<close> at line 74 (it raises
    for a delay that is no finite number). It is the one statement of the \<^verbatim>\<open>try\<close>
    block that can raise: \<^verbatim>\<open>check_for_replies\<close> catches every \<^verbatim>\<open>Exception\<close> itself
    and the prints read text fields;
  \<^item> \<open>handler_sleep_error\<close>: the exception, if any, of the second \<^verbatim>\<open>asyncio.sleep\<close>, at
    line 78 in the handler of the turn; an exception there leaves the loop and reaches
    the outer handler (lines 80-83), which clears the flag and raises it again;
  \<^item> \<open>base_exception\<close>: while the turn was suspended in its sleep, an exception that is
    no \<^verbatim>\<open>Exception\<close> arrived: the task was cancelled, the user interrupted, or the
    signal handler of the background agent (lines 69-73 of
    \<^verbatim>\<open>background_monitor_agent.py\<close>) called \<^verbatim>\<open>sys.exit(0)\<close>. Neither handler catches
    it, so the loop is left with the flag as it was.
\<close>

record cycle_env = check_env +
  stop_requested :: bool
  sleep_error :: "error option"
  handler_sleep_error :: "error option"
  base_exception :: bool

definition stop_monitoring :: "EmailMonitorService \<Rightarrow> EmailMonitorService" where
  "stop_monitoring st = st\<lparr> monitoring_active := False \<rparr>"

datatype 'a turn_result = Continue 'a | TurnRaised error 'a | TurnAborted 'a

definition monitor_cycle ::
  "(string set \<Rightarrow> string list) \<Rightarrow> 'h callback option \<Rightarrow> cycle_env
     \<Rightarrow> EmailMonitorService \<times> 'h \<Rightarrow> (EmailMonitorService \<times> 'h) turn_result" where
  "monitor_cycle list_of reply_callback env sh =
     (case check_for_replies list_of reply_callback env (fst sh) (snd sh) of
        (replies, st', h') \<Rightarrow>
          (let st'' = (if stop_requested env then stop_monitoring st' else st')
           in if base_exception env then TurnAborted (st'', h')
              else case sleep_error env of
                     None \<Rightarrow> Continue (st'', h')
                   | Some e \<Rightarrow>
                       (case handler_sleep_error env of
                          None \<Rightarrow> Continue (st'', h')
                        | Some e' \<Rightarrow>
                            TurnRaised e' (st''\<lparr> monitoring_active := False \<rparr>, h'))))"

text \<open>
  The loop itself. It may run forever, so it is run against the turns of a finite
  prefix of its environment. \<open>Returned\<close>: the test of the \<^verbatim>\<open>while\<close> found the flag
  false and the coroutine returns. \<open>StillRunning\<close>: the prefix is used up and the loop
  would go on. \<open>Raised\<close>: the coroutine ends with the exception that the outer handler
  raised again. \<open>Aborted\<close>: the coroutine was ended from outside, by an exception that is
  no \<^verbatim>\<open>Exception\<close>.
\<close>

datatype 'a loop_result = Returned 'a | StillRunning 'a | Raised error 'a | Aborted 'a

fun monitor_loop ::
  "(string set \<Rightarrow> string list) \<Rightarrow> 'h callback option \<Rightarrow> cycle_env list
     \<Rightarrow> EmailMonitorService \<times> 'h \<Rightarrow> (EmailMonitorService \<times> 'h) loop_result" where
  "monitor_loop list_of reply_callback [] sh =
     (if monitoring_active (fst sh) then StillRunning sh else Returned sh)"
| "monitor_loop list_of reply_callback (env # envs) sh =
     (if monitoring_active (fst sh)
      then (case monitor_cycle list_of reply_callback env sh of
              Continue sh' \<Rightarrow> monitor_loop list_of reply_callback envs sh'
            | TurnRaised e sh' \<Rightarrow> Raised e sh'
            | TurnAborted sh' \<Rightarrow> Aborted sh')
      else Returned sh)"

text \<open>
  \<^verbatim>\<open>start_monitoring\<close> (lines 53-83): inside the outer \<^verbatim>\<open>try\<close> the flag is set,
  without a test, and the loop entered; the outer handler is the \<open>Raised\<close> outcome of
  the loop.
\<close>

definition start_monitoring ::
  "(string set \<Rightarrow> string list) \<Rightarrow> 'h callback option \<Rightarrow> cycle_env list
     \<Rightarrow> EmailMonitorService \<times> 'h \<Rightarrow> (EmailMonitorService \<times> 'h) loop_result" where
  "start_monitoring list_of reply_callback envs sh =
     monitor_loop list_of reply_callback envs ((fst sh)\<lparr> monitoring_active := True \<rparr>, snd sh)"

text \<open>
  The state in which a turn leaves the poller and the agent, and the turns that do not
  end the loop: no stop was requested, no exception from outside arrived, and the two
  sleeps did not both raise.
\<close>

definition turn_state ::
  "(string set \<Rightarrow> string list) \<Rightarrow> 'h callback option \<Rightarrow> EmailMonitorService \<times> 'h
     \<Rightarrow> cycle_env \<Rightarrow> EmailMonitorService \<times> 'h" where
  "turn_state list_of reply_callback sh env =
     (case monitor_cycle list_of reply_callback env sh of
        Continue sh' \<Rightarrow> sh' | TurnRaised e sh' \<Rightarrow> sh' | TurnAborted sh' \<Rightarrow> sh')"

definition goes_on :: "cycle_env \<Rightarrow> bool" where
  "goes_on env =
     (\<not> stop_requested env \<and> \<not> base_exception env
      \<and> (sleep_error env = None \<or> handler_sleep_error env = None))"

subsection \<open>The status and the agent's tools\<close>






subsection \<open>The background monitor's start tool\<close>





section \<open>Example inputs\<close>

text \<open>Concrete records on which the theorems below are evaluated.\<close>

definition example_entry :: "real \<Rightarrow> TimesheetEntry" where
  "example_entry h =
     \<lparr> ts_employee_id = ''E1'', ts_employee_name = ''Ann'',
       ts_employee_email = ''ann@example.com'', ts_date = 0, hours_worked = h,
       project = None, ts_status = ''pending'', ts_notes = None \<rparr>"




definition example_message :: "string \<Rightarrow> EmailMessage" where
  "example_message mid =
     \<lparr> message_id = mid, from_email = ''ann@example.com'', from_name = ''Ann'',
       subject = ''Re: Timesheet Issue - 2025-08-08'', content = ''I was sick with a fever'',
       received_date = 0, is_reply = True, original_subject = None,
       timesheet_date = Some ''2025-08-08'' \<rparr>"

text \<open>A check whose connection to the mailbox succeeds and delivers the given messages.\<close>

definition fetched :: "EmailMessage list \<Rightarrow> check_env" where
  "fetched ms = \<lparr> imap_result = Inr ms, fallback_result = Inr [], clock = 0 \<rparr>"

text \<open>A turn of the loop in which the mailbox and the fallback both fail.\<close>

definition failing_cycle :: cycle_env where
  "failing_cycle =
     \<lparr> imap_result = Inl OtherError, fallback_result = Inl OtherError, clock = 0,
       stop_requested = False, sleep_error = None, handler_sleep_error = None,
       base_exception = False \<rparr>"

definition fetching_cycle :: "EmailMessage list \<Rightarrow> bool \<Rightarrow> cycle_env" where
  "fetching_cycle ms stop =
     \<lparr> imap_result = Inr ms, fallback_result = Inr [], clock = 0, stop_requested = stop,
       sleep_error = None, handler_sleep_error = None, base_exception = False \<rparr>"

text \<open>A callback that raises on every message, and one that counts its calls.\<close>

definition raising_callback :: "unit callback" where
  "raising_callback reply h = (Inl OtherError, h)"

definition counting_callback :: "nat callback" where
  "counting_callback reply n = (Inr (), n + 1)"

text \<open>
  Ten checks in a row, the first of which fetches \<open>batch\<close> and the others nothing; and
  the same followed by a check that fetches \<open>batch\<close> again, as a mailbox does whose
  messages could not be marked as read.
\<close>

definition ten_checks :: "EmailMessage list \<Rightarrow> check_env list" where
  "ten_checks batch =
     [fetched batch, fetched [], fetched [], fetched [], fetched [], fetched [],
      fetched [], fetched [], fetched [], fetched []]"

definition refetch_scenario :: "EmailMessage list \<Rightarrow> check_env list" where
  "refetch_scenario batch = ten_checks batch @ [fetched batch]"

text \<open>One hundred and one message identifiers, in ascending order.\<close>

definition ids101 :: "string list" where
  "ids101 =
     [''m000'', ''m001'', ''m002'', ''m003'', ''m004'', ''m005'', ''m006'', ''m007'',
      ''m008'', ''m009'', ''m010'', ''m011'', ''m012'', ''m013'', ''m014'', ''m015'',
      ''m016'', ''m017'', ''m018'', ''m019'', ''m020'', ''m021'', ''m022'', ''m023'',
      ''m024'', ''m025'', ''m026'', ''m027'', ''m028'', ''m029'', ''m030'', ''m031'',
      ''m032'', ''m033'', ''m034'', ''m035'', ''m036'', ''m037'', ''m038'', ''m039'',
      ''m040'', ''m041'', ''m042'', ''m043'', ''m044'', ''m045'', ''m046'', ''m047'',
      ''m048'', ''m049'', ''m050'', ''m051'', ''m052'', ''m053'', ''m054'', ''m055'',
      ''m056'', ''m057'', ''m058'', ''m059'', ''m060'', ''m061'', ''m062'', ''m063'',
      ''m064'', ''m065'', ''m066'', ''m067'', ''m068'', ''m069'', ''m070'', ''m071'',
      ''m072'', ''m073'', ''m074'', ''m075'', ''m076'', ''m077'', ''m078'', ''m079'',
      ''m080'', ''m081'', ''m082'', ''m083'', ''m084'', ''m085'', ''m086'', ''m087'',
      ''m088'', ''m089'', ''m090'', ''m091'', ''m092'', ''m093'', ''m094'', ''m095'',
      ''m096'', ''m097'', ''m098'', ''m099'', ''m100'']"

fun ascending :: "string list \<Rightarrow> bool" where
  "ascending (x # y # zs) = (x < y \<and> ascending (y # zs))"
| "ascending zs = True"

text \<open>
  A poller that has made nine checks and holds the 101 identifiers: the clean-up is due
  at its next check.
\<close>

definition full_poller :: EmailMonitorService where
  "full_poller =
     \<lparr> last_check_time = Some 0, processed_messages = set ids101,
       monitoring_active = False, check_interval = 60, check_count = 9 \<rparr>"

section \<open>Properties of the anomaly detection\<close>

lemma entry_anomalies_hours:
  "a \<in> set (entry_anomalies sh tss) \<Longrightarrow> actual_hours a < 8 \<or> 12 < actual_hours a"
proof (induction tss)
  case Nil
  then show ?case by simp
next
  case (Cons ts tss)
  show ?case
  proof (cases "check_entry sh ts")
    case None
    with Cons show ?thesis by simp
  next
    case (Some b)
    then have "actual_hours b < 8 \<or> 12 < actual_hours b"
      by (auto simp: check_entry_def split: if_splits)
    with Cons Some show ?thesis by auto
  qed
qed

lemma entry_anomalies_in_range:
  "\<forall>ts \<in> set tss. 8 \<le> hours_worked ts \<and> hours_worked ts \<le> 12 \<Longrightarrow> entry_anomalies sh tss = []"
  by (induction tss) (auto simp: check_entry_def)

text \<open>
  Claim C7. A record whose hours lie in the closed interval from 8 to 12 (the minimum and
  maximum of \<^verbatim>\<open>analyze_timesheets\<close>) yields no anomaly, in particular at exactly 8 and at
  exactly 12; and every anomaly that the analysis reports has hours strictly below 8 or
  strictly above 12.
\<close>

theorem detect_no_anomaly_in_closed_range:
  "(8 \<le> hours_worked ts \<and> hours_worked ts \<le> 12 \<longrightarrow> check_entry sh ts = None)
   \<and> (\<forall>g \<in> set (anomalies_by_employee sh tss). \<forall>a \<in> set (snd g).
         actual_hours a < 8 \<or> 12 < actual_hours a)"
proof
  show "8 \<le> hours_worked ts \<and> hours_worked ts \<le> 12 \<longrightarrow> check_entry sh ts = None"
    by (simp add: check_entry_def)
next
  show "\<forall>g \<in> set (anomalies_by_employee sh tss). \<forall>a \<in> set (snd g).
          actual_hours a < 8 \<or> 12 < actual_hours a"
    by (auto simp: anomalies_by_employee_def dest: entry_anomalies_hours)
qed

theorem detect_no_anomaly_in_closed_range_witness:
  "check_entry (\<lambda>h. ''?'') (example_entry 8) = None
   \<and> check_entry (\<lambda>h. ''?'') (example_entry 12) = None
   \<and> map (map actual_hours \<circ> snd)
        (anomalies_by_employee (\<lambda>h. ''?'')
           [example_entry 3, example_entry 8, example_entry 12, example_entry 13]) = [[3, 13]]"
  using detect_no_anomaly_in_closed_range [of "example_entry 8" "\<lambda>h. ''?''"
          "[example_entry 3, example_entry 8, example_entry 12, example_entry 13]"]
        detect_no_anomaly_in_closed_range [of "example_entry 12" "\<lambda>h. ''?''" "[]"]
  by (simp add: anomalies_by_employee_def group_by_employee_def check_entry_def
        example_entry_def)

text \<open>
  In \<^verbatim>\<open>analyze_timesheets\<close> a \<^verbatim>\<open>missing_hours\<close> anomaly is \<^verbatim>\<open>high\<close> exactly when the
  hours are below half of the minimum 8, and \<^verbatim>\<open>medium\<close> otherwise.
\<close>

lemma check_entry_severity:
  "check_entry sh ts = Some a \<Longrightarrow> anomaly_type a = ''missing_hours'' \<Longrightarrow>
     (severity a = ''high'' \<longleftrightarrow> hours_worked ts < 8 / 2)
     \<and> (severity a = ''medium'' \<longleftrightarrow> \<not> hours_worked ts < 8 / 2)"
  by (auto simp: check_entry_def split: if_splits)

text \<open>
  Claim C3. The severity of a \<^verbatim>\<open>missing_hours\<close> anomaly is \<^verbatim>\<open>high\<close> if and only if the
  hours are below half of the minimum, so that exactly half of the minimum is
  \<^verbatim>\<open>medium\<close>. \<^verbatim>\<open>analyze_timesheets\<close> does this (\<open>check_entry_severity\<close>);
  \<^verbatim>\<open>get_employee_summary\<close> does not: with the threshold 8, a record of exactly 4 hours
  is \<^verbatim>\<open>high\<close> there and \<^verbatim>\<open>medium\<close> in \<^verbatim>\<open>analyze_timesheets\<close>.
\<close>

theorem summary_severity_at_half_threshold:
  "map severity (summary_anomalies 8 sh si [example_entry 4]) = [''high'']
   \<and> map severity (entry_anomalies sh [example_entry 4]) = [''medium'']"
  by (simp add: summary_anomaly_def check_entry_def example_entry_def)

section \<open>Properties of the reason classifier\<close>

text \<open>
  Claim C1, as the code has it. When the classification call raises, the verdict is
  valid if and only if the trimmed reply is longer than 10 characters, with confidence
  30, reason type \<^verbatim>\<open>other\<close> and approval required. The word \<^verbatim>\<open>forgot\<close> is not looked
  for on this path: that test belongs to the other fallback, taken when the call
  returns a text without a JSON object, whose confidence is 50.
\<close>

theorem exception_fallback_verdict:
  "analyze_reason_with_llm json_loads LLMRaises reply_text =
     \<lparr> is_valid = Some (length (py_strip reply_text) > 10),
       reason_type = Some ''other'',
       confidence = Some 30,
       explanation = Some ''Analysis failed, using fallback'',
       requires_approval = Some True,
       suggested_keywords = Some [] \<rparr>"
  by (simp add: analyze_reason_with_llm_def fallback_on_exception_def)

text \<open>
  The reply \<^verbatim>\<open>I forgot to log my hours\<close> through a call that raises is judged valid,
  whereas the rule of claim C1 (longer than 10 characters and without \<^verbatim>\<open>forgot\<close>)
  makes it invalid.
\<close>

theorem exception_fallback_ignores_forgot:
  "is_valid (analyze_reason_with_llm (\<lambda>js. None) LLMRaises ''I forgot to log my hours'')
     = Some True
   \<and> (length (py_strip ''I forgot to log my hours'') > 10
        \<and> \<not> contains ''forgot'' (py_lower ''I forgot to log my hours'')) = False"
  by code_simp

text \<open>The other fallback does look for the word, in any letter case.\<close>

lemma no_json_fallback_verdict:
  "analyze_reason_with_llm json_loads (LLMOutput None) reply_text =
     \<lparr> is_valid = Some (length (py_strip reply_text) > 10
                        \<and> \<not> contains ''forgot'' (py_lower reply_text)),
       reason_type = Some ''other'',
       confidence = Some 50,
       explanation = Some ''Fallback analysis'',
       requires_approval = Some True,
       suggested_keywords = Some [] \<rparr>"
  by (simp add: analyze_reason_with_llm_def fallback_no_json_def json_match_def)

section \<open>Properties of the case table\<close>








subsection \<open>Reply events and escalation\<close>




subsection \<open>Follow-ups\<close>




section \<open>Properties of the mailbox poller\<close>

subsection \<open>One check\<close>

text \<open>The two loops of \<^verbatim>\<open>check_for_replies\<close>, with their results taken apart.\<close>

lemma filter_new_Cons:
  "filter_new (r # rs) seen =
     (if message_id r \<notin> seen
      then (r # fst (filter_new rs (insert (message_id r) seen)),
            snd (filter_new rs (insert (message_id r) seen)))
      else filter_new rs seen)"
  by (simp add: split_beta)

lemma filter_new_seen: "snd (filter_new rs seen) = seen \<union> message_id ` set rs"
  by (induction rs arbitrary: seen) (auto simp: filter_new_Cons simp del: filter_new.simps(2))

lemma filter_new_ids:
  "message_id ` set (fst (filter_new rs seen)) = message_id ` set rs - seen"
  by (induction rs arbitrary: seen) (auto simp: filter_new_Cons simp del: filter_new.simps(2))

lemma filter_new_distinct: "distinct (map message_id (fst (filter_new rs seen)))"
proof (induction rs arbitrary: seen)
  case Nil
  show ?case by simp
next
  case (Cons r rs)
  show ?case
  proof (cases "message_id r \<in> seen")
    case True
    with Cons show ?thesis by simp
  next
    case False
    have "message_id r \<notin> message_id ` set (fst (filter_new rs (insert (message_id r) seen)))"
      by (simp add: filter_new_ids)
    with False Cons [of "insert (message_id r) seen"] show ?thesis
      by (simp add: filter_new_Cons del: filter_new.simps(2))
  qed
qed

lemma filter_new_fresh:
  "distinct (map message_id rs) \<Longrightarrow> message_id ` set rs \<inter> seen = {} \<Longrightarrow>
     fst (filter_new rs seen) = rs"
  by (induction rs arbitrary: seen) (auto simp: filter_new_Cons simp del: filter_new.simps(2))

lemma filter_new_nothing: "message_id ` set rs \<subseteq> seen \<Longrightarrow> fst (filter_new rs seen) = []"
  by (induction rs arbitrary: seen) (auto simp: filter_new_Cons simp del: filter_new.simps(2))

lemma message_id_with_date: "message_id (with_date r) = message_id r"
  by (simp add: with_date_def)

lemma process_reply_eq:
  "process_reply cb r h =
     (with_date r, case cb of None \<Rightarrow> h | Some f \<Rightarrow> snd (f (with_date r) h))"
  by (simp add: process_reply_def Let_def split: option.splits prod.splits sum.splits)

lemma process_replies_Cons:
  "process_replies cb (r # rs) h =
     (with_date r # fst (process_replies cb rs (snd (process_reply cb r h))),
      snd (process_replies cb rs (snd (process_reply cb r h))))"
  by (simp add: split_beta process_reply_eq)

lemma process_replies_fst: "fst (process_replies cb rs h) = map with_date rs"
  by (induction rs arbitrary: h) (simp_all add: process_replies_Cons del: process_replies.simps(2))

text \<open>
  Each new reply is handed to the callback once, in order, and the next one follows
  whether the callback returned or raised.
\<close>

lemma process_replies_snd:
  "snd (process_replies (Some cb) rs h) = foldl (\<lambda>h r. snd (cb (with_date r) h)) h rs"
  by (induction rs arbitrary: h)
     (simp_all add: process_replies_Cons process_reply_eq del: process_replies.simps(2))

lemma check_for_replies_error:
  "simulate_email_check env = Inl e \<Longrightarrow> check_for_replies lo cb env st h = ([], st, h)"
  by (simp add: check_for_replies_def)

lemma check_for_replies_ok:
  "simulate_email_check env = Inr all_replies \<Longrightarrow>
     check_for_replies lo cb env st h =
       (map with_date (fst (filter_new all_replies (processed_messages st))),
        cleanup lo (st\<lparr> processed_messages := processed_messages st \<union> message_id ` set all_replies,
                        last_check_time := Some (clock env),
                        check_count := check_count st + 1 \<rparr>),
        snd (process_replies cb (fst (filter_new all_replies (processed_messages st))) h))"
  using filter_new_seen [of all_replies "processed_messages st"]
    process_replies_fst [of cb "fst (filter_new all_replies (processed_messages st))" h]
  by (auto simp: check_for_replies_def Let_def split: prod.splits)

lemma check_new_ids:
  "message_id ` set (fst (check_for_replies lo cb env st h)) = fetched_ids env - processed_messages st"
  by (cases "simulate_email_check env")
     (simp_all add: check_for_replies_error check_for_replies_ok fetched_ids_def
        filter_new_ids image_image message_id_with_date)

lemma check_new_distinct:
  "distinct (map message_id (fst (check_for_replies lo cb env st h)))"
proof (cases "simulate_email_check env")
  case (Inl e)
  then show ?thesis by (simp add: check_for_replies_error)
next
  case (Inr rs)
  have "map message_id (map with_date (fst (filter_new rs (processed_messages st))))
        = map message_id (fst (filter_new rs (processed_messages st)))"
    by (simp add: message_id_with_date)
  with Inr show ?thesis
    by (simp only: check_for_replies_ok fst_conv filter_new_distinct)
qed

lemma cleanup_idle:
  "card (processed_messages st) \<le> 100 \<or> check_count st mod 10 \<noteq> 0 \<Longrightarrow> cleanup lo st = st"
  by (auto simp: cleanup_def)

lemma finite_fetched_ids: "finite (fetched_ids env)"
  by (simp add: fetched_ids_def split: sum.splits)

lemma check_processed_no_cleanup:
  assumes "finite (processed_messages st)"
    and "card (processed_messages st \<union> fetched_ids env) \<le> 100"
  shows "processed_messages (fst (snd (check_for_replies lo cb env st h)))
           = processed_messages st \<union> fetched_ids env"
proof (cases "simulate_email_check env")
  case (Inl e)
  then show ?thesis by (simp add: check_for_replies_error fetched_ids_def)
next
  case (Inr rs)
  then have f: "fetched_ids env = message_id ` set rs" by (simp add: fetched_ids_def)
  show ?thesis using assms(2)
    by (simp add: Inr check_for_replies_ok f cleanup_idle)
qed

subsection \<open>Several checks\<close>

lemma run_checks_Nil: "fst (run_checks lo cb [] st h) = []"
  by simp

lemma run_checks_Cons:
  "fst (run_checks lo cb (env # envs) st h) =
     fst (check_for_replies lo cb env st h)
       # fst (run_checks lo cb envs (fst (snd (check_for_replies lo cb env st h)))
                (snd (snd (check_for_replies lo cb env st h))))"
  by (simp split: prod.splits)

lemma run_checks_no_cleanup:
  "finite (processed_messages st) \<Longrightarrow>
   card (processed_messages st \<union> \<Union> (fetched_ids ` set envs)) \<le> 100 \<Longrightarrow>
     distinct (map message_id (concat (fst (run_checks lo cb envs st h))))
     \<and> message_id ` set (concat (fst (run_checks lo cb envs st h))) \<inter> processed_messages st = {}"
proof (induction envs arbitrary: st h)
  case Nil
  show ?case by simp
next
  case (Cons env envs)
  let ?c = "check_for_replies lo cb env st h"
  let ?st' = "fst (snd ?c)"
  let ?h' = "snd (snd ?c)"
  let ?U = "processed_messages st \<union> \<Union> (fetched_ids ` set (env # envs))"
  have finU: "finite ?U" using Cons.prems(1) by (simp add: finite_fetched_ids)
  have "processed_messages st \<union> fetched_ids env \<subseteq> ?U" by auto
  then have "card (processed_messages st \<union> fetched_ids env) \<le> card ?U"
    using finU by (rule card_mono [rotated])
  with Cons.prems(2) have c1: "card (processed_messages st \<union> fetched_ids env) \<le> 100" by simp
  have p': "processed_messages ?st' = processed_messages st \<union> fetched_ids env"
    using check_processed_no_cleanup [OF Cons.prems(1) c1] .
  have fin': "finite (processed_messages ?st')"
    using Cons.prems(1) by (simp add: p' finite_fetched_ids)
  have "processed_messages ?st' \<union> \<Union> (fetched_ids ` set envs) = ?U"
    by (auto simp: p')
  with Cons.prems(2) have c2: "card (processed_messages ?st' \<union> \<Union> (fetched_ids ` set envs)) \<le> 100"
    by simp
  note IH = Cons.IH [OF fin' c2, of ?h']
  have new_ids: "message_id ` set (fst ?c) = fetched_ids env - processed_messages st"
    by (rule check_new_ids)
  have new_dist: "distinct (map message_id (fst ?c))" by (rule check_new_distinct)
  have later_disj: "message_id ` set (concat (fst (run_checks lo cb envs ?st' ?h')))
                     \<inter> (processed_messages st \<union> fetched_ids env) = {}"
    using IH by (simp add: p')
  let ?new = "map message_id (fst ?c)"
  let ?later = "map message_id (concat (fst (run_checks lo cb envs ?st' ?h')))"
  have n1: "set ?new = fetched_ids env - processed_messages st"
    using new_ids by simp
  have l1: "set ?later \<inter> (processed_messages st \<union> fetched_ids env) = {}"
    using later_disj by simp
  have l2: "distinct ?later" using IH by simp
  have d: "distinct (?new @ ?later)"
    using new_dist l2 n1 l1 by (simp only: distinct_append) blast
  have e: "set (?new @ ?later) \<inter> processed_messages st = {}"
    using n1 l1 by (simp only: set_append) blast
  have eq: "map message_id (concat (fst (run_checks lo cb (env # envs) st h))) = ?new @ ?later"
    by (simp only: run_checks_Cons concat.simps map_append)
  show ?case
    using d e by (simp only: eq set_map [symmetric])
qed


subsection \<open>The clean-up\<close>

lemma simulate_fetched: "simulate_email_check (fetched ms) = Inr ms"
  by (simp add: simulate_email_check_def fetched_def)

lemma clock_fetched: "clock (fetched ms) = 0"
  by (simp add: fetched_def)

lemma run_checks_append:
  "run_checks lo cb (es1 @ es2) st h =
     (case run_checks lo cb es1 st h of
        (n1, st1, h1) \<Rightarrow>
          (case run_checks lo cb es2 st1 h1 of (n2, st2, h2) \<Rightarrow> (n1 @ n2, st2, h2)))"
  by (induction es1 arbitrary: st h) (auto split: prod.splits)

lemma last_n_props:
  assumes "distinct xs" "n \<le> length xs"
  shows "card (set (last_n n xs)) = n" and "set (last_n n xs) \<subseteq> set xs"
proof -
  have "distinct (last_n n xs)" using assms(1) by (simp add: last_n_def)
  then have "card (set (last_n n xs)) = length (last_n n xs)" by (rule distinct_card)
  also have "\<dots> = n" using assms(2) by (simp add: last_n_def)
  finally show "card (set (last_n n xs)) = n" .
  show "set (last_n n xs) \<subseteq> set xs" by (simp add: last_n_def set_drop_subset)
qed

lemma enumerates_length:
  "enumerates lo \<Longrightarrow> finite S \<Longrightarrow> length (lo S) = card S"
  by (metis distinct_card enumerates_def)

text \<open>
  When the clean-up fires it keeps exactly 50 identifiers, all of them from the set; which
  ones is decided by the listing of the set alone.
\<close>

lemma cleanup_fires:
  assumes "enumerates lo" "finite (processed_messages st)" "check_count st mod 10 = 0"
    "card (processed_messages st) > 100"
  shows "cleanup lo st = st\<lparr> processed_messages := set (last_n 50 (lo (processed_messages st))) \<rparr>"
    and "card (processed_messages (cleanup lo st)) = 50"
    and "processed_messages (cleanup lo st) \<subseteq> processed_messages st"
proof -
  let ?xs = "lo (processed_messages st)"
  have d: "distinct ?xs" and s: "set ?xs = processed_messages st"
    using assms(1,2) by (auto simp: enumerates_def)
  have l: "50 \<le> length ?xs" using enumerates_length [OF assms(1,2)] assms(4) by simp
  show c: "cleanup lo st = st\<lparr> processed_messages := set (last_n 50 ?xs) \<rparr>"
    using assms(3,4) by (simp add: cleanup_def)
  show "card (processed_messages (cleanup lo st)) = 50"
    using last_n_props(1) [OF d l] by (simp add: c)
  show "processed_messages (cleanup lo st) \<subseteq> processed_messages st"
    using last_n_props(2) [OF d l] s by (simp add: c)
qed

text \<open>
  A first check that fetches 101 new messages, then nine checks that fetch nothing: the
  tenth check cleans up, and 50 of the 101 identifiers are left.
\<close>

lemma ten_checks_run:
  assumes en: "enumerates lo" and di: "distinct (map message_id batch)" and le: "length batch = 101"
  shows "run_checks lo cb (ten_checks batch) EmailMonitorService_init h =
           ([map with_date batch, [], [], [], [], [], [], [], [], []],
            \<lparr> last_check_time = Some 0,
              processed_messages = set (last_n 50 (lo (message_id ` set batch))),
              monitoring_active = False, check_interval = 60, check_count = 10 \<rparr>,
            snd (process_replies cb batch h))"
proof -
  let ?S = "message_id ` set batch"
  define stS where "stS = (\<lambda>k. \<lparr> last_check_time = Some 0, processed_messages = ?S,
              monitoring_active = False, check_interval = 60, check_count = k \<rparr>)"
  have cardS: "card ?S = 101"
    using distinct_card [OF di] le by simp
  have finS: "finite ?S" by simp
  have first: "check_for_replies lo cb (fetched batch) EmailMonitorService_init h
                 = (map with_date batch, stS 1, snd (process_replies cb batch h))"
    using di
    by (simp add: check_for_replies_ok [OF simulate_fetched] clock_fetched
          EmailMonitorService_init_def filter_new_fresh stS_def cleanup_idle)
  have idle: "check_for_replies lo cb (fetched []) (stS k) h' = ([], stS (k + 1), h')"
    if "(k + 1) mod 10 \<noteq> 0" for k h'
    using that
    by (simp add: check_for_replies_ok [OF simulate_fetched] clock_fetched stS_def cleanup_idle)
  have tenth: "check_for_replies lo cb (fetched []) (stS 9) h'
                 = ([], (stS 10)\<lparr> processed_messages := set (last_n 50 (lo ?S)) \<rparr>, h')" for h'
  proof -
    have "cleanup lo (stS 10) = (stS 10)\<lparr> processed_messages := set (last_n 50 (lo ?S)) \<rparr>"
      using cleanup_fires(1) [OF en, of "stS 10"] cardS by (simp add: stS_def)
    then show ?thesis
      by (simp add: check_for_replies_ok [OF simulate_fetched] clock_fetched stS_def)
  qed
  show ?thesis
    by (simp add: ten_checks_def first idle tenth) (simp add: stS_def)
qed

text \<open>
  If the mailbox then delivers the same 101 messages again, those whose identifiers were
  dropped are new again and go to the callback a second time.
\<close>

lemma refetch_after_cleanup:
  assumes en: "enumerates lo" and di: "distinct (map message_id batch)" and le: "length batch = 101"
  shows "\<not> distinct (map message_id
            (concat (fst (run_checks lo cb (refetch_scenario batch) EmailMonitorService_init h))))"
proof -
  let ?S = "message_id ` set batch"
  let ?R = "set (last_n 50 (lo ?S))"
  let ?st = "\<lparr> last_check_time = Some 0, processed_messages = ?R,
              monitoring_active = False, check_interval = 60, check_count = 10 \<rparr>"
  let ?h = "snd (process_replies cb batch h)"
  let ?last = "fst (check_for_replies lo cb (fetched batch) ?st ?h)"
  have cardS: "card ?S = 101" using distinct_card [OF di] le by simp
  have "distinct (lo ?S)" "length (lo ?S) = 101"
    using en cardS enumerates_length [OF en, of ?S] by (auto simp: enumerates_def)
  then have cardR: "card ?R = 50" using last_n_props(1) [of "lo ?S" 50] by simp
  have ids_last: "message_id ` set ?last = ?S - ?R"
    by (simp add: check_new_ids fetched_ids_def simulate_fetched)
  have "\<not> ?S \<subseteq> ?R"
  proof
    assume "?S \<subseteq> ?R"
    then have "card ?S \<le> card ?R" by (intro card_mono) simp_all
    with cardS cardR show False by simp
  qed
  then obtain x where x: "x \<in> ?S" "x \<in> message_id ` set ?last"
    using ids_last by blast
  have run: "fst (run_checks lo cb (refetch_scenario batch) EmailMonitorService_init h)
               = [map with_date batch, [], [], [], [], [], [], [], [], [], ?last]"
    by (simp add: refetch_scenario_def run_checks_append ten_checks_run [OF en di le]
          split: prod.splits)
  have "map message_id (concat (fst (run_checks lo cb (refetch_scenario batch)
            EmailMonitorService_init h))) = map message_id batch @ map message_id ?last"
    by (simp add: run message_id_with_date)
  moreover have "x \<in> set (map message_id batch)" "x \<in> set (map message_id ?last)"
    using x by simp_all
  ultimately show ?thesis by (simp only: distinct_append) blast
qed

lemma check_handler_state:
  "snd (snd (check_for_replies lo (Some f) env st h))
     = foldl (\<lambda>h r. snd (f r h)) h (fst (check_for_replies lo (Some f) env st h))"
  by (cases "simulate_email_check env")
     (simp_all add: check_for_replies_error check_for_replies_ok process_replies_snd foldl_map)

lemma check_processed_after:
  assumes "(check_count st + 1) mod 10 \<noteq> 0 \<or> card (processed_messages st \<union> fetched_ids env) \<le> 100"
  shows "processed_messages (fst (snd (check_for_replies lo cb env st h)))
           = processed_messages st \<union> fetched_ids env"
proof (cases "simulate_email_check env")
  case (Inl e)
  then show ?thesis by (simp add: check_for_replies_error fetched_ids_def)
next
  case (Inr rs)
  then have f: "fetched_ids env = message_id ` set rs" by (simp add: fetched_ids_def)
  show ?thesis using assms
    by (auto simp: Inr check_for_replies_ok f cleanup_def)
qed

subsection \<open>The example identifiers\<close>

text \<open>
  Sorting is one listing of a set that \<open>enumerates\<close> admits; the 101 example identifiers
  are distinct and already sorted.
\<close>

lemma enumerates_sorted: "enumerates sorted_list_of_set"
  by (simp add: enumerates_def)

lemma ascending_strict: "ascending xs \<Longrightarrow> sorted_wrt (<) xs"
proof (induction xs rule: ascending.induct)
  case (1 x y zs)
  then have "x < y" "sorted_wrt (<) (y # zs)" by simp_all
  then show ?case by (auto intro: less_trans)
qed simp_all

lemma ids101_ascending: "ascending ids101"
  unfolding ids101_def by (simp add: less_char_def)

lemma ids101_length: "length ids101 = 101"
  by (simp add: ids101_def)

lemma ids101_sorted: "sorted ids101"
  using ascending_strict [OF ids101_ascending] by (simp add: strict_sorted_iff)

lemma ids101_distinct: "distinct ids101"
  using ascending_strict [OF ids101_ascending] by (simp add: strict_sorted_iff)

lemma message_id_example: "map message_id (map example_message xs) = xs"
  by (induction xs) (simp_all add: example_message_def)

lemma sorted_list_ids101: "sorted_list_of_set (set ids101) = ids101"
  using ids101_sorted ids101_distinct
  by (simp add: sorted_list_of_set.idem_if_sorted_distinct)

subsection \<open>Deduplication\<close>

lemmas eval_check = check_for_replies_def simulate_email_check_def fetched_def cleanup_def
  process_reply_def with_date_def example_message_def EmailMonitorService_init_def
  fetched_ids_def

text \<open>
  Between two checks an identifier leaves the seen-set only by the clean-up, and an
  identifier that stays in the seen-set over a run of checks is forwarded at most once
  in that run.
\<close>

lemma check_without_callback:
  "fst (check_for_replies lo cb env st h) = fst (check_for_replies lo None env st h)"
  by (cases "simulate_email_check env")
     (simp_all add: check_for_replies_error check_for_replies_ok)

lemma check_state_without_callback:
  "fst (snd (check_for_replies lo cb env st h)) = fst (snd (check_for_replies lo None env st h))"
  by (cases "simulate_email_check env")
     (simp_all add: check_for_replies_error check_for_replies_ok)

lemma check_processed_not_due:
  assumes "\<not> cleanup_due env st"
  shows "processed_messages (fst (snd (check_for_replies lo cb env st h)))
           = processed_messages st \<union> fetched_ids env"
proof (cases "simulate_email_check env")
  case (Inl e)
  then show ?thesis by (simp add: check_for_replies_error fetched_ids_def)
next
  case (Inr rs)
  then have f: "fetched_ids env = message_id ` set rs" by (simp add: fetched_ids_def)
  show ?thesis using assms
    by (auto simp: Inr check_for_replies_ok f cleanup_def cleanup_due_def)
qed

lemma leaves_only_by_cleanup:
  "x \<in> processed_messages st \<union> fetched_ids env \<Longrightarrow>
   x \<notin> processed_messages (fst (snd (check_for_replies lo cb env st h))) \<Longrightarrow>
     cleanup_due env st"
  using check_processed_not_due [of env st lo cb h] by blast

lemma stays_seen_Cons:
  "stays_seen x lo cb (env # envs) st h =
     ((x \<in> processed_messages st \<union> fetched_ids env \<longrightarrow>
         x \<in> processed_messages (fst (snd (check_for_replies lo cb env st h))))
      \<and> stays_seen x lo cb envs (fst (snd (check_for_replies lo cb env st h)))
           (snd (snd (check_for_replies lo cb env st h))))"
  by (simp add: split_beta)

lemma count_le_1_distinct: "distinct xs \<Longrightarrow> count_list xs x \<le> 1"
  by (induction xs) auto

lemma stays_seen_count:
  "stays_seen x lo cb envs st h \<Longrightarrow>
     count_list (map message_id (concat (fst (run_checks lo cb envs st h)))) x \<le> 1
     \<and> (x \<in> processed_messages st \<longrightarrow>
          x \<notin> message_id ` set (concat (fst (run_checks lo cb envs st h))))"
proof (induction envs arbitrary: st h)
  case Nil
  show ?case by simp
next
  case (Cons env envs)
  let ?c = "check_for_replies lo cb env st h"
  let ?st' = "fst (snd ?c)"
  let ?h' = "snd (snd ?c)"
  let ?new = "map message_id (fst ?c)"
  let ?later = "map message_id (concat (fst (run_checks lo cb envs ?st' ?h')))"
  have both: "(x \<in> processed_messages st \<union> fetched_ids env \<longrightarrow> x \<in> processed_messages ?st')
              \<and> stays_seen x lo cb envs ?st' ?h'"
    using Cons.prems unfolding stays_seen_Cons by blast
  then have keep: "x \<in> processed_messages st \<union> fetched_ids env \<longrightarrow> x \<in> processed_messages ?st'"
    and rest: "stays_seen x lo cb envs ?st' ?h'"
    by blast+
  note IH = Cons.IH [OF rest]
  have n1: "set ?new = fetched_ids env - processed_messages st"
    using check_new_ids [of lo cb env st h] by simp
  have n2: "count_list ?new x \<le> 1"
    by (rule count_le_1_distinct) (rule check_new_distinct)
  have eq: "map message_id (concat (fst (run_checks lo cb (env # envs) st h))) = ?new @ ?later"
    by (simp only: run_checks_Cons concat.simps map_append)
  have l0: "x \<in> processed_messages ?st' \<Longrightarrow> count_list ?later x = 0"
    using IH by (simp add: count_list_0_iff)
  have total: "count_list (?new @ ?later) x \<le> 1"
  proof (cases "x \<in> set ?new")
    case True
    then have "x \<in> processed_messages ?st'" using n1 keep by blast
    then show ?thesis using n2 l0 by simp
  next
    case False
    then have "count_list ?new x = 0" by (simp add: count_list_0_iff)
    then show ?thesis using IH by simp
  qed
  have none: "x \<in> processed_messages st \<Longrightarrow> x \<notin> set (?new @ ?later)"
  proof -
    assume a: "x \<in> processed_messages st"
    then have "x \<notin> set ?new" using n1 by blast
    moreover have "x \<in> processed_messages ?st'" using a keep by blast
    then have "x \<notin> set ?later" using IH by simp
    ultimately show ?thesis by simp
  qed
  show ?case
    using total none by (simp only: eq set_map [symmetric]) blast
qed

lemma count_distinct: "(\<And>x. count_list xs x \<le> 1) \<Longrightarrow> distinct xs"
proof (induction xs)
  case Nil
  show ?case by simp
next
  case (Cons a xs)
  have "count_list (a # xs) a \<le> 1" by (rule Cons.prems)
  then have "count_list xs a = 0" by simp
  then have "a \<notin> set xs" by (simp add: count_list_0_iff)
  moreover have "distinct xs"
  proof (rule Cons.IH)
    fix x
    have "count_list xs x \<le> count_list (a # xs) x" by simp
    also have "\<dots> \<le> 1" by (rule Cons.prems)
    finally show "count_list xs x \<le> 1" .
  qed
  ultimately show ?case by simp
qed

text \<open>
  A poller that holds the 101 example identifiers at its tenth check: the clean-up
  discards \<^verbatim>\<open>m000\<close>.
\<close>

lemma card_ids101: "card (set ids101) = 101"
  using distinct_card [OF ids101_distinct] by (simp add: ids101_length)

lemma m000_first: "take 1 ids101 = [''m000'']"
  by (simp add: ids101_def)

lemma m000_dropped: "''m000'' \<notin> set (last_n 50 ids101)"
proof -
  have "set (take 1 ids101) \<inter> set (drop 51 ids101) = {}"
    by (rule set_take_disj_set_drop_if_distinct [OF ids101_distinct]) simp
  then have "''m000'' \<notin> set (drop 51 ids101)"
    unfolding m000_first by simp
  then show ?thesis by (simp add: last_n_def ids101_length)
qed

lemma m000_in: "''m000'' \<in> set ids101"
  using m000_first by (metis in_set_takeD list.set_intros(1))

lemma full_poller_check:
  "check_for_replies sorted_list_of_set cb (fetched []) full_poller h
     = ([], full_poller\<lparr> processed_messages := set (last_n 50 ids101),
                          check_count := 10 \<rparr>, h)"
  by (simp add: check_for_replies_ok [OF simulate_fetched] clock_fetched full_poller_def
        cleanup_def card_ids101 sorted_list_ids101)

lemma full_poller_due: "cleanup_due (fetched []) full_poller"
  by (simp add: cleanup_due_def simulate_fetched full_poller_def card_ids101)

text \<open>
  Claim C2, as the code has it. A check forwards exactly the fetched messages whose
  identifier is not in the seen-set when the check starts, each identifier once. An
  identifier that is in the seen-set or fetched leaves the seen-set at the end of a
  check only when the clean-up is due at that check, that is at a check count that is a
  multiple of 10 with more than 100 identifiers held. Over a run of checks, an
  identifier that no check of the run removes from the seen-set is forwarded at most
  once, and not at all when it was in the seen-set at the start; when this holds of
  every identifier, the identifiers forwarded in the run are distinct.
\<close>

theorem dedup_while_id_is_seen:
  "message_id ` set (fst (check_for_replies lo cb env st h))
     = fetched_ids env - processed_messages st
   \<and> distinct (map message_id (fst (check_for_replies lo cb env st h)))
   \<and> (x \<in> processed_messages st \<union> fetched_ids env
        \<and> x \<notin> processed_messages (fst (snd (check_for_replies lo cb env st h)))
        \<longrightarrow> cleanup_due env st)
   \<and> (stays_seen x lo cb envs st h \<longrightarrow>
        count_list (map message_id (concat (fst (run_checks lo cb envs st h)))) x \<le> 1
        \<and> (x \<in> processed_messages st \<longrightarrow>
             x \<notin> message_id ` set (concat (fst (run_checks lo cb envs st h)))))
   \<and> ((\<forall>y. stays_seen y lo cb envs st h) \<longrightarrow>
        distinct (map message_id (concat (fst (run_checks lo cb envs st h)))))"
proof (intro conjI impI)
  show "message_id ` set (fst (check_for_replies lo cb env st h))
     = fetched_ids env - processed_messages st"
    by (rule check_new_ids)
next
  show "distinct (map message_id (fst (check_for_replies lo cb env st h)))"
    by (rule check_new_distinct)
next
  assume "x \<in> processed_messages st \<union> fetched_ids env
        \<and> x \<notin> processed_messages (fst (snd (check_for_replies lo cb env st h)))"
  then have a1: "x \<in> processed_messages st \<union> fetched_ids env"
    and a2: "x \<notin> processed_messages (fst (snd (check_for_replies lo cb env st h)))"
    by blast+
  show "cleanup_due env st" by (rule leaves_only_by_cleanup [OF a1 a2])
next
  assume s: "stays_seen x lo cb envs st h"
  from stays_seen_count [OF s]
  show "count_list (map message_id (concat (fst (run_checks lo cb envs st h)))) x \<le> 1" by blast
  assume "x \<in> processed_messages st"
  with stays_seen_count [OF s]
  show "x \<notin> message_id ` set (concat (fst (run_checks lo cb envs st h)))" by blast
next
  assume a: "\<forall>y. stays_seen y lo cb envs st h"
  show "distinct (map message_id (concat (fst (run_checks lo cb envs st h))))"
  proof (rule count_distinct)
    fix y
    from a have "stays_seen y lo cb envs st h" by blast
    from stays_seen_count [OF this]
    show "count_list (map message_id (concat (fst (run_checks lo cb envs st h)))) y \<le> 1" by blast
  qed
qed

text \<open>
  Two checks with repeated and known identifiers, in which every identifier stays in the
  seen-set and the identifiers forwarded are distinct; and the tenth check of the poller
  that holds the 101 identifiers, in which the clean-up is due and \<^verbatim>\<open>m000\<close> leaves
  the seen-set.
\<close>

theorem dedup_while_id_is_seen_witness:
  "map (map message_id) (fst (run_checks sorted_list_of_set (Some counting_callback)
      [fetched [example_message ''m1'', example_message ''m0'', example_message ''m1'',
                example_message ''m2''],
       fetched [example_message ''m2'', example_message ''m1'', example_message ''m3'']]
      (EmailMonitorService_init\<lparr> processed_messages := {''m0''} \<rparr>) 0))
     = [[''m1'', ''m2''], [''m3'']]
   \<and> stays_seen ''m1'' sorted_list_of_set (Some counting_callback)
      [fetched [example_message ''m1'', example_message ''m0'', example_message ''m1'',
                example_message ''m2''],
       fetched [example_message ''m2'', example_message ''m1'', example_message ''m3'']]
      (EmailMonitorService_init\<lparr> processed_messages := {''m0''} \<rparr>) 0
   \<and> (\<forall>y. stays_seen y sorted_list_of_set (Some counting_callback)
      [fetched [example_message ''m1'', example_message ''m0'', example_message ''m1'',
                example_message ''m2''],
       fetched [example_message ''m2'', example_message ''m1'', example_message ''m3'']]
      (EmailMonitorService_init\<lparr> processed_messages := {''m0''} \<rparr>) 0)
   \<and> distinct (map message_id (concat (fst (run_checks sorted_list_of_set
      (Some counting_callback)
      [fetched [example_message ''m1'', example_message ''m0'', example_message ''m1'',
                example_message ''m2''],
       fetched [example_message ''m2'', example_message ''m1'', example_message ''m3'']]
      (EmailMonitorService_init\<lparr> processed_messages := {''m0''} \<rparr>) 0))))
   \<and> ''m000'' \<in> processed_messages full_poller
   \<and> ''m000'' \<notin> processed_messages (fst (snd
         (check_for_replies sorted_list_of_set (Some counting_callback) (fetched [])
            full_poller 0)))
   \<and> cleanup_due (fetched []) full_poller"
  using dedup_while_id_is_seen [of sorted_list_of_set "Some counting_callback"
          "fetched []" full_poller 0 "''m000''"
          "[fetched [example_message ''m1'', example_message ''m0'', example_message ''m1'',
                example_message ''m2''],
            fetched [example_message ''m2'', example_message ''m1'', example_message ''m3'']]"]
        dedup_while_id_is_seen [of sorted_list_of_set "Some counting_callback"
          "fetched [example_message ''m1'', example_message ''m0'', example_message ''m1'',
                example_message ''m2'']"
          "EmailMonitorService_init\<lparr> processed_messages := {''m0''} \<rparr>" 0 "''m1''"
          "[fetched [example_message ''m1'', example_message ''m0'', example_message ''m1'',
                example_message ''m2''],
            fetched [example_message ''m2'', example_message ''m1'', example_message ''m3'']]"]
proof (intro conjI)
  show "''m000'' \<in> processed_messages full_poller"
    by (simp add: full_poller_def m000_in)
  show "''m000'' \<notin> processed_messages (fst (snd
         (check_for_replies sorted_list_of_set (Some counting_callback) (fetched [])
            full_poller 0)))"
    by (simp add: full_poller_check m000_dropped)
  show "cleanup_due (fetched []) full_poller" by (rule full_poller_due)
qed (simp_all add: eval_check counting_callback_def)

text \<open>
  Against claim C2 as stated: after the clean-up of the tenth check a message that is
  fetched again is forwarded a second time, so over the eleven checks of
  \<open>refetch_scenario\<close> the identifiers forwarded to the callback are not distinct.
\<close>

theorem refetched_message_forwarded_twice:
  "\<not> distinct (map message_id (concat (fst
        (run_checks sorted_list_of_set (Some counting_callback)
           (refetch_scenario (map example_message ids101)) EmailMonitorService_init 0))))"
  by (rule refetch_after_cleanup [OF enumerates_sorted])
     (simp_all only: message_id_example ids101_distinct length_map ids101_length)


text \<open>
  Claim C10, as the code has it. The identifier of a new message is in the seen-set
  before the callback is called, and the state that the callback leaves is the one of
  its calls on the new messages in their order, whether they raised or not; the list
  that the check returns and the state in which it leaves the poller are those of a
  check without a callback, so no exception of the callback reaches them. A message
  forwarded by a check is not forwarded by any later check of a run as long as no check
  of the run removes its identifier from the seen-set, and an identifier is removed only
  when the clean-up is due. A check whose fetch raises returns the empty list and
  changes nothing; the fetch raises only when the connection to the mailbox and the
  fallback simulation both do, for after a failed connection the replies of the
  fallback are taken.
\<close>

theorem failed_callback_not_retried_while_seen:
  "(simulate_email_check env = Inl e \<longrightarrow> check_for_replies lo cb env st h = ([], st, h))
   \<and> (imap_result env = Inl e \<longrightarrow> simulate_email_check env = fallback_result env)
   \<and> message_id ` set (fst (filter_new all_replies seen)) \<subseteq> snd (filter_new all_replies seen)
   \<and> snd (snd (check_for_replies lo (Some f) env st h))
        = foldl (\<lambda>h r. snd (f r h)) h (fst (check_for_replies lo (Some f) env st h))
   \<and> fst (check_for_replies lo cb env st h) = fst (check_for_replies lo None env st h)
   \<and> fst (snd (check_for_replies lo cb env st h)) = fst (snd (check_for_replies lo None env st h))
   \<and> (x \<in> message_id ` set (fst (check_for_replies lo cb env st h))
        \<and> stays_seen x lo cb (env # envs) st h \<longrightarrow>
        x \<notin> message_id ` set (concat (fst
              (run_checks lo cb envs (fst (snd (check_for_replies lo cb env st h)))
                 (snd (snd (check_for_replies lo cb env st h)))))))
   \<and> (x \<in> processed_messages st \<union> fetched_ids env
        \<and> x \<notin> processed_messages (fst (snd (check_for_replies lo cb env st h)))
        \<longrightarrow> cleanup_due env st)"
proof (intro conjI impI)
  assume "simulate_email_check env = Inl e"
  then show "check_for_replies lo cb env st h = ([], st, h)"
    by (rule check_for_replies_error)
next
  assume "imap_result env = Inl e"
  then show "simulate_email_check env = fallback_result env"
    by (simp add: simulate_email_check_def)
next
  show "message_id ` set (fst (filter_new all_replies seen)) \<subseteq> snd (filter_new all_replies seen)"
    by (auto simp: filter_new_ids filter_new_seen)
next
  show "snd (snd (check_for_replies lo (Some f) env st h))
        = foldl (\<lambda>h r. snd (f r h)) h (fst (check_for_replies lo (Some f) env st h))"
    by (rule check_handler_state)
next
  show "fst (check_for_replies lo cb env st h) = fst (check_for_replies lo None env st h)"
    by (rule check_without_callback)
next
  show "fst (snd (check_for_replies lo cb env st h)) = fst (snd (check_for_replies lo None env st h))"
    by (rule check_state_without_callback)
next
  let ?c = "check_for_replies lo cb env st h"
  assume a: "x \<in> message_id ` set (fst ?c) \<and> stays_seen x lo cb (env # envs) st h"
  then have "x \<in> fetched_ids env" using check_new_ids [of lo cb env st h] by blast
  moreover
  have "(x \<in> processed_messages st \<union> fetched_ids env \<longrightarrow> x \<in> processed_messages (fst (snd ?c)))
        \<and> stays_seen x lo cb envs (fst (snd ?c)) (snd (snd ?c))"
    using a unfolding stays_seen_Cons by blast
  ultimately have "x \<in> processed_messages (fst (snd ?c))"
    and "stays_seen x lo cb envs (fst (snd ?c)) (snd (snd ?c))"
    by blast+
  with stays_seen_count [of x lo cb envs "fst (snd ?c)" "snd (snd ?c)"]
  show "x \<notin> message_id ` set (concat (fst (run_checks lo cb envs (fst (snd ?c)) (snd (snd ?c)))))"
    by blast
next
  assume "x \<in> processed_messages st \<union> fetched_ids env
        \<and> x \<notin> processed_messages (fst (snd (check_for_replies lo cb env st h)))"
  then have a1: "x \<in> processed_messages st \<union> fetched_ids env"
    and a2: "x \<notin> processed_messages (fst (snd (check_for_replies lo cb env st h)))"
    by blast+
  show "cleanup_due env st" by (rule leaves_only_by_cleanup [OF a1 a2])
qed

text \<open>
  Three checks with a callback that raises on every message: \<^verbatim>\<open>m1\<close> and \<^verbatim>\<open>m2\<close>
  are forwarded by the first check and by no later one; a check whose fetch raises; and
  the tenth check of the poller that holds the 101 identifiers.
\<close>

theorem failed_callback_not_retried_while_seen_witness:
  "map (map message_id) (fst (run_checks sorted_list_of_set (Some raising_callback)
      [fetched [example_message ''m1'', example_message ''m2''],
       fetched [example_message ''m1''],
       fetched [example_message ''m2'', example_message ''m1'', example_message ''m3'']]
      EmailMonitorService_init ()))
     = [[''m1'', ''m2''], [], [''m3'']]
   \<and> stays_seen ''m1'' sorted_list_of_set (Some raising_callback)
      [fetched [example_message ''m1'', example_message ''m2''],
       fetched [example_message ''m1''],
       fetched [example_message ''m2'', example_message ''m1'', example_message ''m3'']]
      EmailMonitorService_init ()
   \<and> check_for_replies sorted_list_of_set (Some raising_callback)
      failing_cycle EmailMonitorService_init () = ([], EmailMonitorService_init, ())
   \<and> ''m000'' \<notin> processed_messages (fst (snd
         (check_for_replies sorted_list_of_set (Some raising_callback) (fetched [])
            full_poller ())))
   \<and> cleanup_due (fetched []) full_poller"
  using failed_callback_not_retried_while_seen [of failing_cycle OtherError sorted_list_of_set
          "Some raising_callback" EmailMonitorService_init "()" "[]" "{}" raising_callback
          "''m1''" "[]"]
        failed_callback_not_retried_while_seen [of
          "fetched [example_message ''m1'', example_message ''m2'']" OtherError
          sorted_list_of_set "Some raising_callback" EmailMonitorService_init "()"
          "[example_message ''m1'', example_message ''m2'']" "{}" raising_callback
          "''m1''"
          "[fetched [example_message ''m1''],
            fetched [example_message ''m2'', example_message ''m1'', example_message ''m3'']]"]
        failed_callback_not_retried_while_seen [of "fetched []" OtherError sorted_list_of_set
          "Some raising_callback" full_poller "()" "[]" "{}" raising_callback "''m000''" "[]"]
proof (intro conjI)
  show "''m000'' \<notin> processed_messages (fst (snd
         (check_for_replies sorted_list_of_set (Some raising_callback) (fetched [])
            full_poller ())))"
    by (simp add: full_poller_check m000_dropped)
  show "cleanup_due (fetched []) full_poller" by (rule full_poller_due)
qed (simp_all add: eval_check raising_callback_def failing_cycle_def)

text \<open>
  Against claim C10 as stated: with a callback that raises on every message, a message
  whose identifier the clean-up has discarded is forwarded again when it is fetched
  again; and a check whose connection to the mailbox fails returns the reply that the
  fallback simulation made up, not the empty list.
\<close>

theorem failed_message_forwarded_again:
  "\<not> distinct (map message_id (concat (fst
        (run_checks sorted_list_of_set (Some raising_callback)
           (refetch_scenario (map example_message ids101)) EmailMonitorService_init ()))))
   \<and> fst (check_for_replies sorted_list_of_set (Some raising_callback)
          \<lparr> imap_result = Inl OtherError, fallback_result = Inr [example_message ''m1''],
            clock = 0 \<rparr> EmailMonitorService_init ()) = [example_message ''m1'']"
proof
  show "\<not> distinct (map message_id (concat (fst
        (run_checks sorted_list_of_set (Some raising_callback)
           (refetch_scenario (map example_message ids101)) EmailMonitorService_init ()))))"
    by (rule refetch_after_cleanup [OF enumerates_sorted])
       (simp_all only: message_id_example ids101_distinct length_map ids101_length)
next
  show "fst (check_for_replies sorted_list_of_set (Some raising_callback)
          \<lparr> imap_result = Inl OtherError, fallback_result = Inr [example_message ''m1''],
            clock = 0 \<rparr> EmailMonitorService_init ()) = [example_message ''m1'']"
    by (simp add: eval_check raising_callback_def)
qed

subsection \<open>Which identifiers the clean-up keeps\<close>

text \<open>
  Claim C6. The clean-up, which fires at a check count that is a multiple of 10 when
  more than 100 identifiers are held, is to keep the 50 identifiers added last. It keeps
  50 (\<open>cleanup_fires\<close>), but the last 50 of the listing of a set, which need not be the
  ones added last: when 101 messages arrive with descending identifiers and the set is
  listed in ascending order, the 50 kept are the 50 that were added first, and none of
  the 50 added last is kept.
\<close>

theorem cleanup_keeps_oldest:
  "processed_messages (fst (snd
      (run_checks sorted_list_of_set (None :: unit callback option)
         (ten_checks (map example_message (rev ids101))) EmailMonitorService_init ())))
     = set (take 50 (rev ids101))
   \<and> set (take 50 (rev ids101)) \<inter> set (last_n 50 (rev ids101)) = {}"
proof -
  have d: "distinct (map message_id (map example_message (rev ids101)))"
    by (simp only: message_id_example distinct_rev ids101_distinct)
  have l: "length (map example_message (rev ids101)) = 101"
    by (simp add: ids101_length)
  have S: "message_id ` set (map example_message (rev ids101)) = set ids101"
    using message_id_example [of "rev ids101"] by (metis set_map set_rev)
  have "processed_messages (fst (snd
      (run_checks sorted_list_of_set (None :: unit callback option)
         (ten_checks (map example_message (rev ids101))) EmailMonitorService_init ())))
     = set (last_n 50 ids101)"
    unfolding ten_checks_run [OF enumerates_sorted d l] S sorted_list_ids101 by simp
  moreover have "take 50 (rev ids101) = rev (last_n 50 ids101)"
    by (simp add: last_n_def take_rev ids101_length)
  moreover have "last_n 50 (rev ids101) = rev (take 50 ids101)"
    by (simp add: last_n_def drop_rev ids101_length)
  moreover have "set (last_n 50 ids101) \<inter> set (take 50 ids101) = {}"
    using set_take_disj_set_drop_if_distinct [OF ids101_distinct, of 50 51]
    by (simp add: last_n_def ids101_length Int_commute)
  ultimately show ?thesis by simp
qed

subsection \<open>The polling loop\<close>

text \<open>
  A check leaves the flag alone. A turn that \<open>goes_on\<close> continues the loop, and every
  other turn ends it: by the return of the coroutine when a stop was requested, by the
  exception of the second sleep when both sleeps raised, or from outside.
\<close>

lemma cleanup_active: "monitoring_active (cleanup lo st) = monitoring_active st"
  by (simp add: cleanup_def)

lemma check_active:
  "monitoring_active (fst (snd (check_for_replies lo cb env st h))) = monitoring_active st"
  by (cases "simulate_email_check env")
     (simp_all add: check_for_replies_error check_for_replies_ok cleanup_active)

lemma cycle_goes_on:
  "goes_on env \<Longrightarrow> monitor_cycle lo cb env sh = Continue (turn_state lo cb sh env)"
  by (auto simp: goes_on_def turn_state_def monitor_cycle_def Let_def
           split: prod.splits option.splits)

lemma turn_state_active:
  "monitoring_active (fst (turn_state lo cb sh env))
     = (monitoring_active (fst sh) \<and> \<not> stop_requested env
        \<and> (base_exception env \<or> sleep_error env = None \<or> handler_sleep_error env = None))"
  using check_active [of lo cb env "fst sh" "snd sh"]
  by (auto simp: turn_state_def monitor_cycle_def stop_monitoring_def Let_def
           split: prod.splits option.splits)

lemma cycle_ends:
  "\<not> goes_on env \<Longrightarrow>
     monitor_cycle lo cb env sh =
       (if base_exception env then TurnAborted (turn_state lo cb sh env)
        else case (sleep_error env, handler_sleep_error env) of
               (Some x, Some y) \<Rightarrow> TurnRaised y (turn_state lo cb sh env)
             | _ \<Rightarrow> Continue (turn_state lo cb sh env))"
  by (auto simp: goes_on_def turn_state_def monitor_cycle_def Let_def
           split: prod.splits option.splits)

lemma cycle_continue:
  "monitor_cycle lo cb env sh = Continue s1 \<Longrightarrow>
     \<not> base_exception env \<and> (sleep_error env = None \<or> handler_sleep_error env = None)"
  by (auto simp: monitor_cycle_def Let_def split: prod.splits option.splits if_splits)

lemma loop_inactive: "\<not> monitoring_active (fst sh) \<Longrightarrow> monitor_loop lo cb envs sh = Returned sh"
  by (cases envs) simp_all

lemma loop_prefix:
  "monitoring_active (fst sh) \<Longrightarrow> \<forall>e \<in> set pre. goes_on e \<Longrightarrow>
     monitor_loop lo cb (pre @ rest) sh = monitor_loop lo cb rest (foldl (turn_state lo cb) sh pre)
     \<and> monitoring_active (fst (foldl (turn_state lo cb) sh pre))"
proof (induction pre arbitrary: sh)
  case Nil
  then show ?case by simp
next
  case (Cons e pre)
  then have g: "goes_on e" by simp
  then have a: "monitoring_active (fst (turn_state lo cb sh e))"
    using Cons.prems(1) by (simp add: turn_state_active goes_on_def)
  from Cons.IH [OF a] Cons.prems(2) show ?case
    using Cons.prems(1) by (simp add: cycle_goes_on [OF g])
qed

lemma loop_goes_on:
  "monitoring_active (fst sh) \<Longrightarrow> \<forall>e \<in> set envs. goes_on e \<Longrightarrow>
     monitor_loop lo cb envs sh = StillRunning (foldl (turn_state lo cb) sh envs)"
  using loop_prefix [of sh envs lo cb "[]"] by simp

lemma loop_ends:
  assumes "monitoring_active (fst sh)" "\<forall>e \<in> set pre. goes_on e" "\<not> goes_on e'"
  shows "monitor_loop lo cb (pre @ e' # post) sh =
           (if base_exception e' then Aborted (foldl (turn_state lo cb) sh (pre @ [e']))
            else case (sleep_error e', handler_sleep_error e') of
                   (Some x, Some y) \<Rightarrow> Raised y (foldl (turn_state lo cb) sh (pre @ [e']))
                 | _ \<Rightarrow> Returned (foldl (turn_state lo cb) sh (pre @ [e'])))"
proof -
  let ?s = "foldl (turn_state lo cb) sh pre"
  have a: "monitor_loop lo cb (pre @ e' # post) sh = monitor_loop lo cb (e' # post) ?s"
    and b: "monitoring_active (fst ?s)"
    using loop_prefix [OF assms(1,2), of lo cb "e' # post"] by simp_all
  show ?thesis
  proof (cases "base_exception e' \<or> (sleep_error e' \<noteq> None \<and> handler_sleep_error e' \<noteq> None)")
    case True
    then show ?thesis
      using a b cycle_ends [OF assms(3), of lo cb ?s]
      by (auto split: option.splits)
  next
    case False
    with assms(3) have st: "stop_requested e'" by (auto simp: goes_on_def)
    then have "\<not> monitoring_active (fst (turn_state lo cb ?s e'))"
      by (simp add: turn_state_active)
    then have "monitor_loop lo cb post (turn_state lo cb ?s e') = Returned (turn_state lo cb ?s e')"
      by (rule loop_inactive)
    then show ?thesis
      using a b False cycle_ends [OF assms(3), of lo cb ?s]
      by (auto split: option.splits)
  qed
qed

lemma loop_outcome_cause:
  "monitoring_active (fst sh) \<Longrightarrow>
     (monitor_loop lo cb envs sh = Returned sh' \<longrightarrow>
        (\<exists>e \<in> set envs. stop_requested e) \<and> \<not> monitoring_active (fst sh'))
     \<and> (monitor_loop lo cb envs sh = Aborted sh' \<longrightarrow> (\<exists>e \<in> set envs. base_exception e))
     \<and> (monitor_loop lo cb envs sh = Raised x sh' \<longrightarrow>
          (\<exists>e \<in> set envs. sleep_error e \<noteq> None \<and> handler_sleep_error e = Some x)
          \<and> \<not> monitoring_active (fst sh'))"
proof (induction envs arbitrary: sh)
  case Nil
  then show ?case by simp
next
  case (Cons e envs)
  show ?case
  proof (cases "monitor_cycle lo cb e sh")
    case (Continue s1)
    then have s1: "s1 = turn_state lo cb sh e" by (simp add: turn_state_def)
    show ?thesis
    proof (cases "monitoring_active (fst s1)")
      case True
      from Cons.IH [OF True] Cons.prems Continue show ?thesis by auto
    next
      case False
      then have r: "monitor_loop lo cb envs s1 = Returned s1" by (rule loop_inactive)
      from False Cons.prems cycle_continue [OF Continue] have "stop_requested e"
        unfolding s1 by (auto simp: turn_state_active)
      with r False Cons.prems Continue show ?thesis by auto
    qed
  next
    case (TurnRaised y s1)
    then show ?thesis using Cons.prems
      by (auto simp: monitor_cycle_def Let_def split: prod.splits option.splits if_splits)
  next
    case (TurnAborted s1)
    then show ?thesis using Cons.prems
      by (auto simp: monitor_cycle_def Let_def split: prod.splits option.splits if_splits)
  qed
qed

text \<open>
  Claim C9, as the code has it. Neither an error of the fetch nor one of a callback
  ends the loop: whatever the mailbox, the fallback and the callback do, as long as no
  turn has a stop request, an exception from outside or two failing sleeps, the loop is
  still running after every turn. The first turn that is not of that kind ends the
  loop, and the turns after it are not run. The loop returns only after a stop request,
  with the flag cleared. It does not end by its return alone: it ends with an exception,
  the flag cleared by the outer handler, when \<^verbatim>\<open>asyncio.sleep\<close> raises in a turn and
  again in the handler of the turn; and it is ended from outside, with the flag as it
  was, when a cancellation, a keyboard interrupt or the \<^verbatim>\<open>SystemExit\<close> of the
  background agent's signal handler arrives.
\<close>

theorem poller_loop_outcomes:
  "((\<forall>e \<in> set envs. goes_on e) \<longrightarrow>
      start_monitoring lo cb envs sh =
        StillRunning (foldl (turn_state lo cb)
                        ((fst sh)\<lparr> monitoring_active := True \<rparr>, snd sh) envs))
   \<and> ((\<forall>e \<in> set pre. goes_on e) \<and> \<not> goes_on e' \<longrightarrow>
        start_monitoring lo cb (pre @ e' # post) sh =
          (if base_exception e'
           then Aborted (foldl (turn_state lo cb)
                           ((fst sh)\<lparr> monitoring_active := True \<rparr>, snd sh) (pre @ [e']))
           else case (sleep_error e', handler_sleep_error e') of
                  (Some x, Some y) \<Rightarrow>
                    Raised y (foldl (turn_state lo cb)
                                ((fst sh)\<lparr> monitoring_active := True \<rparr>, snd sh) (pre @ [e']))
                | _ \<Rightarrow>
                    Returned (foldl (turn_state lo cb)
                                ((fst sh)\<lparr> monitoring_active := True \<rparr>, snd sh) (pre @ [e']))))
   \<and> (start_monitoring lo cb envs sh = Returned sh' \<longrightarrow>
        (\<exists>e \<in> set envs. stop_requested e) \<and> \<not> monitoring_active (fst sh'))
   \<and> (start_monitoring lo cb envs sh = Aborted sh' \<longrightarrow> (\<exists>e \<in> set envs. base_exception e))
   \<and> (start_monitoring lo cb envs sh = Raised x sh' \<longrightarrow>
        (\<exists>e \<in> set envs. sleep_error e \<noteq> None \<and> handler_sleep_error e = Some x)
        \<and> \<not> monitoring_active (fst sh'))"
proof -
  let ?s = "((fst sh)\<lparr> monitoring_active := True \<rparr>, snd sh)"
  have act: "monitoring_active (fst ?s)" by simp
  show ?thesis
    unfolding start_monitoring_def
    using loop_goes_on [OF act, of envs lo cb] loop_ends [OF act, of pre e' lo cb post]
      loop_outcome_cause [OF act, of lo cb envs sh' x]
    by blast
qed

lemmas eval_cycle = monitor_cycle_def turn_state_def check_for_replies_def
  simulate_email_check_def failing_cycle_def fetching_cycle_def cleanup_def process_reply_def
  with_date_def raising_callback_def example_message_def EmailMonitorService_init_def
  stop_monitoring_def

text \<open>
  Four runs of a fresh poller with a callback that raises on every message. A failed
  fetch, a fetched message and a failed sleep leave the loop running; a stop requested
  in the second turn makes the loop return before the third; two failed sleeps in one
  turn end it with the second exception; an exception from outside ends it with the
  flag set.
\<close>

theorem poller_loop_outcomes_witness:
  "start_monitoring sorted_list_of_set (Some raising_callback)
      [failing_cycle, fetching_cycle [example_message ''m1''] False,
       failing_cycle\<lparr> sleep_error := Some OtherError \<rparr>]
      (EmailMonitorService_init, ())
     = StillRunning
         (\<lparr> last_check_time = Some 0, processed_messages = {''m1''}, monitoring_active = True,
            check_interval = 60, check_count = 1 \<rparr>, ())
   \<and> start_monitoring sorted_list_of_set (Some raising_callback)
      [failing_cycle, fetching_cycle [example_message ''m1''] True, failing_cycle]
      (EmailMonitorService_init, ())
     = Returned
         (\<lparr> last_check_time = Some 0, processed_messages = {''m1''}, monitoring_active = False,
            check_interval = 60, check_count = 1 \<rparr>, ())
   \<and> start_monitoring sorted_list_of_set (Some raising_callback)
      [failing_cycle,
       failing_cycle\<lparr> sleep_error := Some OtherError, handler_sleep_error := Some KeyError \<rparr>,
       failing_cycle]
      (EmailMonitorService_init, ())
     = Raised KeyError (EmailMonitorService_init, ())
   \<and> start_monitoring sorted_list_of_set (Some raising_callback)
      [failing_cycle, failing_cycle\<lparr> base_exception := True \<rparr>, failing_cycle]
      (EmailMonitorService_init, ())
     = Aborted (EmailMonitorService_init\<lparr> monitoring_active := True \<rparr>, ())"
  using poller_loop_outcomes [of
          "[failing_cycle, fetching_cycle [example_message ''m1''] False,
            failing_cycle\<lparr> sleep_error := Some OtherError \<rparr>]"
          sorted_list_of_set "Some raising_callback" "(EmailMonitorService_init, ())"
          "[failing_cycle]" "fetching_cycle [example_message ''m1''] True" "[failing_cycle]"]
        poller_loop_outcomes [of "[]"
          sorted_list_of_set "Some raising_callback" "(EmailMonitorService_init, ())"
          "[failing_cycle]"
          "failing_cycle\<lparr> sleep_error := Some OtherError, handler_sleep_error := Some KeyError \<rparr>"
          "[failing_cycle]"]
        poller_loop_outcomes [of "[]"
          sorted_list_of_set "Some raising_callback" "(EmailMonitorService_init, ())"
          "[failing_cycle]" "failing_cycle\<lparr> base_exception := True \<rparr>" "[failing_cycle]"]
  by (simp add: eval_cycle goes_on_def)

text \<open>
  Against claim C9 as stated: in the second turn of this run the process receives a
  signal while the loop sleeps, and the handler of the background agent calls
  \<^verbatim>\<open>sys.exit(0)\<close>. The loop ends there and the third turn is never run, although
  no stop request was seen by the loop and the flag of the poller is still set.
\<close>

theorem interrupted_loop_ends_with_flag_set:
  "start_monitoring sorted_list_of_set (Some raising_callback)
      [fetching_cycle [example_message ''m1''] False,
       (fetching_cycle [] False)\<lparr> base_exception := True \<rparr>,
       fetching_cycle [] False]
      (EmailMonitorService_init, ())
     = Aborted
         (\<lparr> last_check_time = Some 0, processed_messages = {''m1''}, monitoring_active = True,
            check_interval = 60, check_count = 2 \<rparr>, ())
   \<and> stop_requested (fetching_cycle [example_message ''m1''] False) = False
   \<and> stop_requested ((fetching_cycle [] False)\<lparr> base_exception := True \<rparr>) = False"
  by (simp add: start_monitoring_def eval_cycle)

subsection \<open>Starting the poller\<close>




end
